theory Spec2Isabelle
  imports Complex_Main "HOL-Library.Sublist"
begin

section \<open>Layout reconstruction: the data model\<close>

text \<open>
  The development embeds \<^verbatim>\<open>layoutParser.ts\<close> (the per-page core) and the page loop
  of \<^verbatim>\<open>ocrProcessor.ts\<close>.

  Numbers are modelled as \<^typ>\<open>real\<close>: the arithmetic of the source (subtraction,
  absolute value, comparison) is read exactly, so NaN, the infinities and rounding
  are outside the model. Strings are \<^typ>\<open>string\<close>, read as sequences of ASCII code
  units; \<open>length\<close> is the source's \<^verbatim>\<open>.length\<close> on such strings.

  Record fields carry a prefix where the source's name (\<^verbatim>\<open>x\<close>, \<^verbatim>\<open>y\<close>, \<^verbatim>\<open>items\<close>)
  would otherwise capture the variables of every later statement.
\<close>

text \<open>The \<^verbatim>\<open>TextItem\<close> of the extractor, with the fields the code reads.\<close>

record TextItem =
  str :: string
  transform :: "real list"
  width :: real
  height :: real
  fontName :: string

text \<open>
  An entry of \<^verbatim>\<open>textContent.items\<close>: a text item, or marked content, which is
  the only kind that has a \<^verbatim>\<open>type\<close> property.
\<close>

datatype RawItem = Text TextItem | MarkedContent string

record PositionedItem =
  p_str :: string
  p_x :: real
  p_y :: real
  p_width :: real
  p_height :: real
  p_fontName :: string

record LineGroup =
  line_y :: real
  line_items :: "PositionedItem list"

datatype Block = TableBlock "LineGroup list" | ParaBlock "LineGroup list"

fun block_lines :: "Block \<Rightarrow> LineGroup list" where
  "block_lines (TableBlock ls) = ls"
| "block_lines (ParaBlock ls) = ls"

text \<open>\<open>Paragraph text isHeading\<close>, \<open>Table rows colCount\<close>, \<open>PageBreak\<close>.\<close>

datatype DocElement = Paragraph string bool | Table "string list list" nat | PageBreak

subsection \<open>Tuning knobs\<close>

text \<open>
  The source fixes the five knobs as module constants. The model passes them as a
  record, so that statements about changing a knob can be written; \<open>defaults\<close>
  holds the values of the source.
\<close>

record config =
  ROW_TOLERANCE :: real
  COL_TOLERANCE :: real
  MIN_TABLE_COLS :: nat
  MIN_TABLE_ROWS :: nat
  HEADING_MAX_LEN :: nat

definition defaults :: config where
  "defaults = \<lparr>ROW_TOLERANCE = 4, COL_TOLERANCE = 18, MIN_TABLE_COLS = 2,
     MIN_TABLE_ROWS = 2, HEADING_MAX_LEN = 80\<rparr>"

definition TEXT_THRESHOLD :: nat where
  "TEXT_THRESHOLD = 30"

section \<open>String built-ins\<close>

text \<open>
  The white space that \<^verbatim>\<open>String.prototype.trim\<close> strips, within ASCII: tab, line
  feed, vertical tab, form feed, carriage return and space.
\<close>

definition isWhiteSpace :: "char \<Rightarrow> bool" where
  "isWhiteSpace c = ((of_char c :: nat) \<in> {9, 10, 11, 12, 13, 32})"

definition trim :: "string \<Rightarrow> string" where
  "trim s = rev (dropWhile isWhiteSpace (rev (dropWhile isWhiteSpace s)))"

text \<open>\<^verbatim>\<open>toUpperCase\<close> on ASCII: the letters a to z move to A to Z, nothing else changes.\<close>

definition upperChar :: "char \<Rightarrow> char" where
  "upperChar c =
     (case map_of (zip ''abcdefghijklmnopqrstuvwxyz'' ''ABCDEFGHIJKLMNOPQRSTUVWXYZ'') c of
        None \<Rightarrow> c
      | Some u \<Rightarrow> u)"

definition toUpperCase :: "string \<Rightarrow> string" where
  "toUpperCase s = map upperChar s"

text \<open>The character class \<^verbatim>\<open>[A-Z]\<close>.\<close>

definition isAZ :: "char \<Rightarrow> bool" where
  "isAZ c = (65 \<le> (of_char c :: nat) \<and> (of_char c :: nat) \<le> 90)"

text \<open>\<^verbatim>\<open>Array.prototype.join\<close> on an array of strings.\<close>

fun join :: "string \<Rightarrow> string list \<Rightarrow> string" where
  "join sep [] = []"
| "join sep [s] = s"
| "join sep (s # t # rest) = s @ sep @ join sep (t # rest)"

text \<open>\<^verbatim>\<open>split\<close> at a one-character separator; the empty string gives one empty piece.\<close>

fun split :: "char \<Rightarrow> string \<Rightarrow> string list" where
  "split sep [] = [[]]"
| "split sep (c # cs) =
     (if c = sep then [] # split sep cs
      else (case split sep cs of [] \<Rightarrow> [[c]] | w # ws \<Rightarrow> (c # w) # ws))"

section \<open>Helpers\<close>

text \<open>
  \<^verbatim>\<open>mergeColumnBuckets\<close>: sort ascending, then push a value when there is no bucket
  yet or the value exceeds the last bucket by more than the tolerance.
\<close>

fun bucket_loop :: "config \<Rightarrow> real list \<Rightarrow> real list \<Rightarrow> real list" where
  "bucket_loop cfg [] buckets = buckets"
| "bucket_loop cfg (v # rest) buckets =
     (if buckets = [] \<or> v - last buckets > COL_TOLERANCE cfg
      then bucket_loop cfg rest (buckets @ [v])
      else bucket_loop cfg rest buckets)"

definition mergeColumnBuckets :: "config \<Rightarrow> real list \<Rightarrow> real list" where
  "mergeColumnBuckets cfg xValues = bucket_loop cfg (sort xValues) []"

text \<open>
  \<^verbatim>\<open>nearestBucket\<close>: the loop starts at index 1 with bucket 0 as the best so far and
  moves on a strictly smaller distance only. With no bucket at all the loop does
  not run and the source returns 0.
\<close>

fun nearest_loop :: "real \<Rightarrow> real list \<Rightarrow> nat \<Rightarrow> nat \<Rightarrow> real \<Rightarrow> nat" where
  "nearest_loop v [] i best bestDist = best"
| "nearest_loop v (b # rest) i best bestDist =
     (let d = \<bar>v - b\<bar> in
      if d < bestDist then nearest_loop v rest (i + 1) i d
      else nearest_loop v rest (i + 1) best bestDist)"

definition nearestBucket :: "real \<Rightarrow> real list \<Rightarrow> nat" where
  "nearestBucket v buckets =
     (case buckets of [] \<Rightarrow> 0 | b0 # rest \<Rightarrow> nearest_loop v rest 1 0 \<bar>v - b0\<bar>)"

definition isHeadingText :: "config \<Rightarrow> string \<Rightarrow> bool" where
  "isHeadingText cfg text =
     (let t = trim text in
      length t > 0 \<and> length t < HEADING_MAX_LEN cfg \<and> t = toUpperCase t \<and> list_ex isAZ t)"

section \<open>Step 1: positioned items\<close>

fun toPositioned_loop :: "RawItem list \<Rightarrow> real \<Rightarrow> PositionedItem list \<Rightarrow> PositionedItem list" where
  "toPositioned_loop [] pageHeight result = result"
| "toPositioned_loop (MarkedContent ty # rest) pageHeight result =
     toPositioned_loop rest pageHeight result"
| "toPositioned_loop (Text item # rest) pageHeight result =
     (if trim (str item) = [] then toPositioned_loop rest pageHeight result
      else
        (let xv = transform item ! 4;
             yPdf = transform item ! 5;
             yv = pageHeight - yPdf - \<bar>height item\<bar>
         in toPositioned_loop rest pageHeight
              (result @ [\<lparr>p_str = str item, p_x = xv, p_y = yv, p_width = width item,
                          p_height = \<bar>height item\<bar>, p_fontName = fontName item\<rparr>])))"

definition toPositioned :: "RawItem list \<Rightarrow> real \<Rightarrow> PositionedItem list" where
  "toPositioned items pageHeight = toPositioned_loop items pageHeight []"

section \<open>Step 2: lines\<close>

fun group_loop ::
  "config \<Rightarrow> PositionedItem list \<Rightarrow> LineGroup list \<Rightarrow> PositionedItem list \<Rightarrow> real \<Rightarrow> LineGroup list"
where
  "group_loop cfg [] lines currentLine currentY =
     lines @ [\<lparr>line_y = currentY, line_items = sort_key p_x currentLine\<rparr>]"
| "group_loop cfg (item # rest) lines currentLine currentY =
     (if \<bar>p_y item - currentY\<bar> \<le> ROW_TOLERANCE cfg
      then group_loop cfg rest lines (currentLine @ [item]) currentY
      else group_loop cfg rest
             (lines @ [\<lparr>line_y = currentY, line_items = sort_key p_x currentLine\<rparr>])
             [item] (p_y item))"

definition groupIntoLines :: "config \<Rightarrow> PositionedItem list \<Rightarrow> LineGroup list" where
  "groupIntoLines cfg items =
     (case sort_key p_y items of
        [] \<Rightarrow> []
      | first # rest \<Rightarrow> group_loop cfg rest [] [first] (p_y first))"

section \<open>Step 3: blocks\<close>

text \<open>
  The loop of \<^verbatim>\<open>tryExtractTable\<close> over the lines from \<^verbatim>\<open>start\<close> on; every
  \<^verbatim>\<open>break\<close> returns the lines accepted so far.
\<close>

fun extract_loop :: "config \<Rightarrow> LineGroup list \<Rightarrow> real list \<Rightarrow> LineGroup list \<Rightarrow> LineGroup list" where
  "extract_loop cfg [] colBuckets tableLines = tableLines"
| "extract_loop cfg (line # rest) colBuckets tableLines =
     (if length (line_items line) < MIN_TABLE_COLS cfg then tableLines
      else
        (let lineXs = map p_x (line_items line) in
         if length colBuckets = 0 then
           (let colBuckets' = mergeColumnBuckets cfg lineXs in
            if length colBuckets' < MIN_TABLE_COLS cfg then tableLines
            else extract_loop cfg rest colBuckets' (tableLines @ [line]))
         else
           (let matched = filter (\<lambda>v. \<exists>b \<in> set colBuckets. \<bar>v - b\<bar> \<le> COL_TOLERANCE cfg) lineXs in
            if length matched < MIN_TABLE_COLS cfg then tableLines
            else extract_loop cfg rest (mergeColumnBuckets cfg (colBuckets @ lineXs))
                   (tableLines @ [line]))))"

definition tryExtractTable :: "config \<Rightarrow> LineGroup list \<Rightarrow> nat \<Rightarrow> LineGroup list option" where
  "tryExtractTable cfg lines start =
     (if start \<ge> length lines then None
      else
        (let tableLines = extract_loop cfg (drop start lines) [] [] in
         if length tableLines \<ge> MIN_TABLE_ROWS cfg then Some tableLines else None))"

text \<open>
  The \<^verbatim>\<open>while\<close> loop of \<^verbatim>\<open>segmentIntoBlocks\<close>. A table block advances the index by
  the number of its lines, which is no progress when that number is 0 (possible
  only with \<open>MIN_TABLE_ROWS = 0\<close>); the loop is therefore a partial function, and
  \<open>None\<close> stands for not returning.
\<close>

partial_function (option) segment_loop ::
  "config \<Rightarrow> LineGroup list \<Rightarrow> nat \<Rightarrow> Block list \<Rightarrow> Block list option"
where
  "segment_loop cfg lines i blocks =
     (if i < length lines then
        (case tryExtractTable cfg lines i of
           None \<Rightarrow> segment_loop cfg lines (i + 1) (blocks @ [ParaBlock [lines ! i]])
         | Some tableLines \<Rightarrow>
             if length tableLines \<ge> MIN_TABLE_ROWS cfg
             then segment_loop cfg lines (i + length tableLines) (blocks @ [TableBlock tableLines])
             else segment_loop cfg lines (i + 1) (blocks @ [ParaBlock [lines ! i]]))
      else Some blocks)"

declare segment_loop.simps [code]

definition segmentIntoBlocks :: "config \<Rightarrow> LineGroup list \<Rightarrow> Block list option" where
  "segmentIntoBlocks cfg lines = segment_loop cfg lines 0 []"

section \<open>Step 4: elements\<close>

text \<open>
  Writing \<^verbatim>\<open>cells[col]\<close>: inside the array the entry is replaced; beyond its end the
  source's array grows up to the index. Reading beyond the end gives
  \<^verbatim>\<open>undefined\<close>, which is falsy like the empty string.
\<close>

definition set_cell :: "string list \<Rightarrow> nat \<Rightarrow> string \<Rightarrow> string list" where
  "set_cell cells col s =
     (if col < length cells then cells[col := s]
      else cells @ replicate (col - length cells) [] @ [s])"

definition cell_truthy :: "string list \<Rightarrow> nat \<Rightarrow> bool" where
  "cell_truthy cells col = (col < length cells \<and> cells ! col \<noteq> [])"

fun fill_cells :: "real list \<Rightarrow> PositionedItem list \<Rightarrow> string list \<Rightarrow> string list" where
  "fill_cells colBuckets [] cells = cells"
| "fill_cells colBuckets (item # rest) cells =
     (let col = nearestBucket (p_x item) colBuckets in
      fill_cells colBuckets rest
        (set_cell cells col
           (if cell_truthy cells col then cells ! col @ '' '' @ p_str item else p_str item)))"

definition tableBlockToElement :: "config \<Rightarrow> LineGroup list \<Rightarrow> DocElement" where
  "tableBlockToElement cfg blines =
     (let allXs = concat (map (\<lambda>l. map p_x (line_items l)) blines);
          colBuckets = mergeColumnBuckets cfg allXs;
          colCount = length colBuckets;
          rows = map (\<lambda>line. fill_cells colBuckets (line_items line) (replicate colCount [])) blines
      in Table rows colCount)"

definition paraBlockToElements :: "config \<Rightarrow> LineGroup list \<Rightarrow> DocElement list" where
  "paraBlockToElements cfg blines =
     map (\<lambda>line.
            (let text = trim (join '' '' (map p_str (line_items line)))
             in Paragraph text (isHeadingText cfg text))) blines"

fun emit_loop :: "config \<Rightarrow> Block list \<Rightarrow> DocElement list \<Rightarrow> DocElement list" where
  "emit_loop cfg [] elements = elements"
| "emit_loop cfg (TableBlock ls # rest) elements =
     emit_loop cfg rest (elements @ [tableBlockToElement cfg ls])"
| "emit_loop cfg (ParaBlock ls # rest) elements =
     emit_loop cfg rest (elements @ paraBlockToElements cfg ls)"

text \<open>\<^verbatim>\<open>buildDocElements\<close>; \<open>None\<close> only when the segmentation loop does not return.\<close>

definition buildDocElements :: "config \<Rightarrow> RawItem list \<Rightarrow> real \<Rightarrow> DocElement list option" where
  "buildDocElements cfg items pageHeight =
     (let positioned = toPositioned items pageHeight in
      if length positioned = 0 then Some []
      else
        (case segmentIntoBlocks cfg (groupIntoLines cfg positioned) of
           None \<Rightarrow> None
         | Some blocks \<Rightarrow> Some (emit_loop cfg blocks [])))"

fun renderElement :: "DocElement \<Rightarrow> string" where
  "renderElement PageBreak = ''--- Page Break ---''"
| "renderElement (Paragraph text h) = text"
| "renderElement (Table rows colCount) = join [CHR 0x0A] (map (\<lambda>row. join [CHR 0x09] row) rows)"

definition elementsToText :: "DocElement list \<Rightarrow> string" where
  "elementsToText elements = join [CHR 0x0A] (map renderElement elements)"

section \<open>Page assembly\<close>

text \<open>
  A page as the loop of \<^verbatim>\<open>processPdfClientSide\<close> sees it: the items of its text
  content, the height \<^verbatim>\<open>viewBox[3]\<close>, and the text the OCR worker recognises on
  its rendering (read only when the page is treated as scanned).
\<close>

record PdfPage =
  page_items :: "RawItem list"
  page_height :: real
  page_ocrText :: string

record OcrResult =
  res_elements :: "DocElement list"
  res_text :: string
  res_pageCount :: nat
  res_usedOcr :: bool

text \<open>The filter \<^verbatim>\<open>!("type" in it)\<close>: the text items among the raw items, in order.\<close>

fun textItems :: "RawItem list \<Rightarrow> TextItem list" where
  "textItems [] = []"
| "textItems (MarkedContent ty # rest) = textItems rest"
| "textItems (Text item # rest) = item # textItems rest"

definition embeddedRaw :: "RawItem list \<Rightarrow> string" where
  "embeddedRaw items = trim (concat (map str (textItems items)))"

definition ocrParagraphs :: "string \<Rightarrow> DocElement list" where
  "ocrParagraphs ocrText =
     map (\<lambda>line. Paragraph line
            (length line > 0 \<and> length line < 80 \<and> line = toUpperCase line \<and> list_ex isAZ line))
         (filter (\<lambda>l. l \<noteq> []) (map trim (split (CHR 0x0A) ocrText)))"

fun page_loop ::
  "PdfPage list \<Rightarrow> nat \<Rightarrow> DocElement list \<Rightarrow> bool \<Rightarrow> (DocElement list \<times> bool) option"
where
  "page_loop [] pageNum allElements used = Some (allElements, used)"
| "page_loop (page # rest) pageNum allElements used =
     (let allElements1 = (if pageNum > 1 then allElements @ [PageBreak] else allElements) in
      if length (embeddedRaw (page_items page)) \<ge> TEXT_THRESHOLD then
        (case buildDocElements defaults (page_items page) (page_height page) of
           None \<Rightarrow> None
         | Some pageElements \<Rightarrow>
             page_loop rest (pageNum + 1) (allElements1 @ pageElements) used)
      else page_loop rest (pageNum + 1) (allElements1 @ ocrParagraphs (page_ocrText page)) True)"

definition processPdfClientSide :: "PdfPage list \<Rightarrow> OcrResult option" where
  "processPdfClientSide pages =
     (case page_loop pages 1 [] False of
        None \<Rightarrow> None
      | Some (allElements, used) \<Rightarrow>
          Some \<lparr>res_elements = allElements, res_text = elementsToText allElements,
                res_pageCount = length pages, res_usedOcr = used\<rparr>)"

section \<open>Outcome of a call of the core\<close>

text \<open>
  The source of the core has no \<^verbatim>\<open>throw\<close> statement and no validation of its
  arguments, and on its typed input the built-ins it calls do not throw. The
  outcome of a call is therefore written with an error branch that no equation
  produces; \<open>None\<close> stands for not returning.
\<close>

datatype error = MalformedInput

definition coreOutcome :: "RawItem list \<Rightarrow> real \<Rightarrow> (error + DocElement list) option" where
  "coreOutcome items pageHeight = map_option Inr (buildDocElements defaults items pageHeight)"

section \<open>Notions used in the statements\<close>

text \<open>Two lines whose representative heights are more than the row tolerance apart.\<close>

definition lineStep :: "config \<Rightarrow> LineGroup \<Rightarrow> LineGroup \<Rightarrow> bool" where
  "lineStep cfg a b = (line_y a + ROW_TOLERANCE cfg < line_y b)"

text \<open>
  What the segmentation guarantees of a block: a table block has the minimal
  number of lines and its first line alone gives the minimal number of column
  buckets; a paragraph block is one line.
\<close>

definition table_ok :: "config \<Rightarrow> LineGroup list \<Rightarrow> bool" where
  "table_ok cfg ls =
     (MIN_TABLE_ROWS cfg \<le> length ls \<and>
      (ls \<noteq> [] \<longrightarrow>
         MIN_TABLE_COLS cfg \<le> length (mergeColumnBuckets cfg (map p_x (line_items (hd ls))))))"

fun block_ok :: "config \<Rightarrow> Block \<Rightarrow> bool" where
  "block_ok cfg (TableBlock ls) = table_ok cfg ls"
| "block_ok cfg (ParaBlock ls) = (length ls = 1)"

text \<open>
  Positions in a list of blocks, counted in lines from the first line of the first
  block: \<open>tableStart bs p\<close> when a table block of \<open>bs\<close> begins at line \<open>p\<close>,
  \<open>inTable bs p\<close> when line \<open>p\<close> belongs to a table block of \<open>bs\<close>.
\<close>

fun tableStart :: "Block list \<Rightarrow> nat \<Rightarrow> bool" where
  "tableStart [] p = False"
| "tableStart (TableBlock ls # bs) p =
     (p = 0 \<or> (length ls \<le> p \<and> tableStart bs (p - length ls)))"
| "tableStart (ParaBlock ls # bs) p = (length ls \<le> p \<and> tableStart bs (p - length ls))"

fun inTable :: "Block list \<Rightarrow> nat \<Rightarrow> bool" where
  "inTable [] p = False"
| "inTable (TableBlock ls # bs) p =
     (p < length ls \<or> (length ls \<le> p \<and> inTable bs (p - length ls)))"
| "inTable (ParaBlock ls # bs) p = (length ls \<le> p \<and> inTable bs (p - length ls))"

text \<open>
  What the segmentation loop, started at line \<open>i\<close>, guarantees of the blocks it adds:
  they cover the lines from \<open>i\<close> on, each is well formed, a table block begins only
  where \<^verbatim>\<open>tryExtractTable\<close> returns a table, and a line where it returns a table
  belongs to a table block.
\<close>

definition seg_ok :: "config \<Rightarrow> LineGroup list \<Rightarrow> nat \<Rightarrow> Block list \<Rightarrow> bool" where
  "seg_ok cfg lines i bs =
     (concat (map block_lines bs) = drop i lines \<and> list_all (block_ok cfg) bs \<and>
      (\<forall>p. tableStart bs p \<longrightarrow> tryExtractTable cfg lines (i + p) \<noteq> None) \<and>
      (\<forall>p. i + p < length lines \<longrightarrow> tryExtractTable cfg lines (i + p) \<noteq> None \<longrightarrow>
           inTable bs p))"

text \<open>The elements one block contributes in the loop of \<^verbatim>\<open>buildDocElements\<close>.\<close>

fun blockElements :: "config \<Rightarrow> Block \<Rightarrow> DocElement list" where
  "blockElements cfg (TableBlock ls) = [tableBlockToElement cfg ls]"
| "blockElements cfg (ParaBlock ls) = paraBlockToElements cfg ls"

text \<open>
  The elements one page contributes in the page loop, after the page break, and the
  list the loop builds from the contributions of the pages, the first of which has
  number \<open>n\<close>.
\<close>

definition pageElements :: "PdfPage \<Rightarrow> DocElement list" where
  "pageElements page =
     (if length (embeddedRaw (page_items page)) \<ge> TEXT_THRESHOLD
      then (case buildDocElements defaults (page_items page) (page_height page) of
              None \<Rightarrow> [] | Some els \<Rightarrow> els)
      else ocrParagraphs (page_ocrText page))"

fun assemble :: "nat \<Rightarrow> DocElement list list \<Rightarrow> DocElement list" where
  "assemble n [] = []"
| "assemble n (p # ps) = (if n > 1 then [PageBreak] else []) @ p @ assemble (n + 1) ps"

text \<open>
  A page that is treated as scanned and whose OCR text has no line with anything but
  white space: the loop appends no element for it.
\<close>

definition blankScan :: "PdfPage \<Rightarrow> bool" where
  "blankScan page =
     (length (embeddedRaw (page_items page)) < TEXT_THRESHOLD \<and>
      list_all (\<lambda>l. trim l = []) (split (CHR 0x0A) (page_ocrText page)))"

subsection \<open>Example inputs\<close>

text \<open>
  A text item with the string \<open>s\<close> at \<^verbatim>\<open>transform[4] = tx\<close>, \<^verbatim>\<open>transform[5] = ty\<close>,
  of width 5 and height 10; a line at height \<open>yv\<close> with one item \<^verbatim>\<open>"a"\<close> at each of
  the given x positions; a page without embedded text whose OCR text is \<open>t\<close>.
\<close>

definition glyph :: "string \<Rightarrow> real \<Rightarrow> real \<Rightarrow> RawItem" where
  "glyph s tx ty =
     Text \<lparr>str = s, transform = [1, 0, 0, 1, tx, ty], width = 5, height = 10, fontName = ''f1''\<rparr>"

definition lineAt :: "real \<Rightarrow> real list \<Rightarrow> LineGroup" where
  "lineAt yv xs =
     \<lparr>line_y = yv,
      line_items = map (\<lambda>v. \<lparr>p_str = ''a'', p_x = v, p_y = yv, p_width = 5, p_height = 10,
                              p_fontName = ''f1''\<rparr>) xs\<rparr>"

definition scannedPage :: "string \<Rightarrow> PdfPage" where
  "scannedPage t = \<lparr>page_items = [], page_height = 792, page_ocrText = t\<rparr>"

text \<open>
  Two pages of four lines each, given by the x positions of their items: on the first
  the table that begins at the first line ends before the fourth line; on the second
  the table of the first two lines is followed by two lines that match the second line
  but not each other.
\<close>

definition colsExample :: "LineGroup list" where
  "colsExample =
     [lineAt 0 [12, 42], lineAt 10 [12, 42], lineAt 20 [30, 60, 72, 90],
      lineAt 30 [100, 104, 108]]"

definition rowsExample :: "LineGroup list" where
  "rowsExample =
     [lineAt 0 [0, 40], lineAt 10 [18, 58, 100], lineAt 20 [20, 76], lineAt 30 [50, 110]]"

section \<open>Evaluation rules and basic facts\<close>

lemmas string_eval = trim_def isWhiteSpace_def toUpperCase_def upperChar_def isAZ_def

lemmas pipeline_eval =
  buildDocElements_def toPositioned_def groupIntoLines_def segmentIntoBlocks_def segment_loop.simps
  tryExtractTable_def mergeColumnBuckets_def tableBlockToElement_def nearestBucket_def set_cell_def
  cell_truthy_def paraBlockToElements_def isHeadingText_def defaults_def Let_def string_eval

lemmas page_eval =
  processPdfClientSide_def scannedPage_def embeddedRaw_def TEXT_THRESHOLD_def ocrParagraphs_def
  blankScan_def string_eval

lemma defaults_fields [simp]:
  "ROW_TOLERANCE defaults = 4" "COL_TOLERANCE defaults = 18" "MIN_TABLE_COLS defaults = 2"
  "MIN_TABLE_ROWS defaults = 2" "HEADING_MAX_LEN defaults = 80"
  by (simp_all add: defaults_def)

lemma isAZ_set: "isAZ c = (c \<in> set ''ABCDEFGHIJKLMNOPQRSTUVWXYZ'')"
  by (cases c) (simp add: isAZ_def)

lemma trim_Nil_iff: "(trim s = []) = (\<forall>c \<in> set s. isWhiteSpace c)"
proof
  assume "trim s = []"
  then have "\<forall>c \<in> set (dropWhile isWhiteSpace s). isWhiteSpace c"
    by (simp add: trim_def dropWhile_eq_Nil_conv)
  then have "dropWhile isWhiteSpace s = []"
    using hd_dropWhile [of isWhiteSpace s] by (cases "dropWhile isWhiteSpace s") auto
  then show "\<forall>c \<in> set s. isWhiteSpace c" by (simp add: dropWhile_eq_Nil_conv)
next
  assume "\<forall>c \<in> set s. isWhiteSpace c"
  then show "trim s = []" by (auto simp: trim_def dest: set_dropWhileD)
qed

section \<open>Column buckets\<close>

lemma bucket_loop_length: "length bs \<le> length (bucket_loop cfg vs bs)"
proof (induction vs arbitrary: bs)
  case Nil
  show ?case by simp
next
  case (Cons v vs)
  have "length bs \<le> length (bs @ [v])" by simp
  also have "\<dots> \<le> length (bucket_loop cfg vs (bs @ [v]))" by (rule Cons.IH)
  finally have a: "length bs \<le> length (bucket_loop cfg vs (bs @ [v]))" .
  from a Cons.IH [of bs] show ?case by simp
qed

text \<open>With the least value \<open>m\<close> as only bucket, a second bucket appears exactly when
  some later value is more than the tolerance to the right of \<open>m\<close>.\<close>

lemma bucket_loop_two:
  "(2 \<le> length (bucket_loop cfg vs [m])) = (\<exists>v \<in> set vs. COL_TOLERANCE cfg < v - m)"
proof (induction vs)
  case Nil
  show ?case by simp
next
  case (Cons v vs)
  show ?case
  proof (cases "COL_TOLERANCE cfg < v - m")
    case True
    have "length [m, v] \<le> length (bucket_loop cfg vs [m, v])" by (rule bucket_loop_length)
    with True show ?thesis by simp
  next
    case False
    with Cons.IH show ?thesis by simp
  qed
qed

lemma mergeColumnBuckets_two:
  assumes tol: "0 \<le> COL_TOLERANCE cfg"
  shows "(2 \<le> length (mergeColumnBuckets cfg xs)) =
         (\<exists>a \<in> set xs. \<exists>b \<in> set xs. COL_TOLERANCE cfg < b - a)"
proof (cases "sort xs")
  case Nil
  then have "xs = []" by (metis length_sort length_0_conv)
  then show ?thesis by (simp add: mergeColumnBuckets_def)
next
  case (Cons m vs)
  have set_eq: "set xs = insert m (set vs)"
    using Cons set_sort [of "\<lambda>x. x" xs] by simp
  have "sorted (m # vs)" using sorted_sort [of xs] Cons by simp
  then have least: "\<forall>v \<in> set vs. m \<le> v" by simp
  have eq: "(2 \<le> length (mergeColumnBuckets cfg xs)) = (\<exists>v \<in> set vs. COL_TOLERANCE cfg < v - m)"
    using bucket_loop_two [of cfg vs m] Cons by (simp add: mergeColumnBuckets_def)
  show ?thesis
  proof
    assume "2 \<le> length (mergeColumnBuckets cfg xs)"
    with eq obtain v where "v \<in> set vs" "COL_TOLERANCE cfg < v - m" by blast
    then show "\<exists>a \<in> set xs. \<exists>b \<in> set xs. COL_TOLERANCE cfg < b - a"
      unfolding set_eq by blast
  next
    assume "\<exists>a \<in> set xs. \<exists>b \<in> set xs. COL_TOLERANCE cfg < b - a"
    then obtain a b where ab: "a \<in> set xs" "b \<in> set xs" "COL_TOLERANCE cfg < b - a" by blast
    have "m \<le> a" using ab(1) least unfolding set_eq by auto
    with ab(3) have gt: "COL_TOLERANCE cfg < b - m" by simp
    with tol have "b \<noteq> m" by auto
    with ab(2) have "b \<in> set vs" unfolding set_eq by simp
    with gt eq show "2 \<le> length (mergeColumnBuckets cfg xs)" by blast
  qed
qed

lemma nearest_loop_bound:
  "best < i \<Longrightarrow> nearest_loop v rest i best d < i + length rest"
proof (induction rest arbitrary: i best d)
  case Nil
  then show ?case by simp
next
  case (Cons b rest)
  have a: "nearest_loop v rest (Suc i) i d' < Suc i + length rest" for d'
    by (rule Cons.IH) simp
  have b: "nearest_loop v rest (Suc i) best d' < Suc i + length rest" for d'
    by (rule Cons.IH) (use Cons.prems in simp)
  from a b show ?case by (simp add: Let_def)
qed

lemma nearestBucket_bound: "buckets \<noteq> [] \<Longrightarrow> nearestBucket v buckets < length buckets"
proof (cases buckets)
  case Nil
  assume "buckets \<noteq> []"
  with Nil show ?thesis by simp
next
  case (Cons b0 rest)
  have "nearest_loop v rest 1 0 \<bar>v - b0\<bar> < 1 + length rest"
    by (rule nearest_loop_bound) simp
  with Cons show ?thesis by (simp add: nearestBucket_def)
qed

lemma fill_cells_length:
  "colBuckets \<noteq> [] \<Longrightarrow> length cells = length colBuckets \<Longrightarrow>
   length (fill_cells colBuckets its cells) = length colBuckets"
proof (induction its arbitrary: cells)
  case Nil
  then show ?case by simp
next
  case (Cons item its)
  let ?col = "nearestBucket (p_x item) colBuckets"
  have "?col < length cells"
    using nearestBucket_bound [OF Cons.prems(1)] Cons.prems(2) by simp
  then have "length (set_cell cells ?col s) = length colBuckets" for s
    using Cons.prems(2) by (simp add: set_cell_def)
  then show ?case using Cons.IH [OF Cons.prems(1)] by (simp add: Let_def)
qed

text \<open>The buckets depend on the column tolerance only.\<close>

lemma bucket_loop_cong:
  assumes "COL_TOLERANCE hi = COL_TOLERANCE lo"
  shows "bucket_loop hi vs bs = bucket_loop lo vs bs"
proof (induction vs arbitrary: bs)
  case Nil
  show ?case by simp
next
  case (Cons v vs)
  show ?case by (simp only: bucket_loop.simps assms Cons.IH)
qed

lemma mergeColumnBuckets_cong:
  assumes "COL_TOLERANCE hi = COL_TOLERANCE lo"
  shows "mergeColumnBuckets hi xs = mergeColumnBuckets lo xs"
  unfolding mergeColumnBuckets_def using assms by (rule bucket_loop_cong)

section \<open>Positioned items and lines\<close>

lemma toPositioned_loop_eq:
  "toPositioned_loop items H acc =
     acc @ map (\<lambda>item. \<lparr>p_str = str item, p_x = transform item ! 4,
                  p_y = H - transform item ! 5 - \<bar>height item\<bar>,
                  p_width = width item, p_height = \<bar>height item\<bar>, p_fontName = fontName item\<rparr>)
            (filter (\<lambda>item. trim (str item) \<noteq> []) (textItems items))"
  by (induction items H acc rule: toPositioned_loop.induct) (simp_all add: Let_def)

text \<open>
  The loop over the items sorted by height: the lines closed so far are more than
  the tolerance apart, the last of them is more than the tolerance above the
  current line, and no remaining item is above the current line.
\<close>

lemma group_loop_successively:
  "sorted (map p_y rest) \<Longrightarrow> \<forall>it \<in> set rest. cy \<le> p_y it \<Longrightarrow>
   successively (lineStep cfg) lines \<Longrightarrow>
   (lines \<noteq> [] \<longrightarrow> line_y (last lines) + ROW_TOLERANCE cfg < cy) \<Longrightarrow>
   successively (lineStep cfg) (group_loop cfg rest lines cur cy)"
proof (induction rest arbitrary: lines cur cy)
  case Nil
  then show ?case by (auto simp: successively_append_iff lineStep_def)
next
  case (Cons item rest)
  show ?case
  proof (cases "\<bar>p_y item - cy\<bar> \<le> ROW_TOLERANCE cfg")
    case True
    have "successively (lineStep cfg) (group_loop cfg rest lines (cur @ [item]) cy)"
      using Cons.prems by (intro Cons.IH) auto
    with True show ?thesis by simp
  next
    case False
    let ?l = "\<lparr>line_y = cy, line_items = sort_key p_x cur\<rparr>"
    from Cons.prems(2) have ge: "cy \<le> p_y item" by simp
    with False have gt: "cy + ROW_TOLERANCE cfg < p_y item" by simp
    have "successively (lineStep cfg) (group_loop cfg rest (lines @ [?l]) [item] (p_y item))"
    proof (intro Cons.IH)
      show "sorted (map p_y rest)" using Cons.prems(1) by simp
      show "\<forall>it\<in>set rest. p_y item \<le> p_y it" using Cons.prems(1) by simp
      show "successively (lineStep cfg) (lines @ [?l])"
        using Cons.prems(3,4) by (auto simp: successively_append_iff lineStep_def)
      show "lines @ [?l] \<noteq> [] \<longrightarrow> line_y (last (lines @ [?l])) + ROW_TOLERANCE cfg < p_y item"
        using gt by simp
    qed
    with False show ?thesis by simp
  qed
qed

lemma groupIntoLines_successively:
  "successively (lineStep cfg) (groupIntoLines cfg items)"
proof (cases "sort_key p_y items")
  case Nil
  then show ?thesis by (simp add: groupIntoLines_def)
next
  case (Cons first rest)
  have s: "sorted (map p_y (first # rest))"
    using sorted_sort_key [of p_y items] Cons by simp
  have "successively (lineStep cfg) (group_loop cfg rest [] [first] (p_y first))"
    using s by (intro group_loop_successively) auto
  with Cons show ?thesis by (simp add: groupIntoLines_def)
qed

lemma group_loop_nonempty: "group_loop cfg rest lines cur cy \<noteq> []"
  by (induction rest arbitrary: lines cur cy) simp_all

lemma groupIntoLines_nonempty: "items \<noteq> [] \<Longrightarrow> groupIntoLines cfg items \<noteq> []"
proof -
  assume "items \<noteq> []"
  then have "sort_key p_y items \<noteq> []" by (metis length_sort length_0_conv)
  then show ?thesis
    by (cases "sort_key p_y items") (simp_all add: groupIntoLines_def group_loop_nonempty)
qed

section \<open>Table extraction and segmentation\<close>

text \<open>The loop of \<^verbatim>\<open>tryExtractTable\<close> appends a prefix of the lines it is given.\<close>

lemma extract_loop_take:
  "\<exists>k. extract_loop cfg ls C acc = acc @ take k ls"
proof (induction ls arbitrary: C acc)
  case Nil
  show ?case by simp
next
  case (Cons l ls)
  have stop: "\<exists>k. acc = acc @ take k (l # ls)" by (rule exI [of _ 0]) simp
  have go: "\<exists>k. extract_loop cfg ls C' (acc @ [l]) = acc @ take k (l # ls)" for C'
  proof -
    from Cons.IH [of C' "acc @ [l]"] obtain k
      where "extract_loop cfg ls C' (acc @ [l]) = (acc @ [l]) @ take k ls" by blast
    then have "extract_loop cfg ls C' (acc @ [l]) = acc @ take (Suc k) (l # ls)" by simp
    then show ?thesis by blast
  qed
  show ?case using stop go by (simp add: Let_def)
qed

lemma extract_loop_extends: "prefix acc (extract_loop cfg ls C acc)"
  using extract_loop_take [of cfg ls C acc] by (auto simp: prefix_def)

lemma extract_loop_first:
  assumes "extract_loop cfg ls [] [] \<noteq> []"
  shows "MIN_TABLE_COLS cfg \<le> length (mergeColumnBuckets cfg (map p_x (line_items (hd ls))))
         \<and> hd (extract_loop cfg ls [] []) = hd ls"
proof (cases ls)
  case Nil
  with assms show ?thesis by simp
next
  case (Cons l rest)
  let ?C = "mergeColumnBuckets cfg (map p_x (line_items l))"
  from assms Cons have ok: "\<not> length (line_items l) < MIN_TABLE_COLS cfg"
      "\<not> length ?C < MIN_TABLE_COLS cfg"
    by (auto simp: Let_def split: if_splits)
  then have r: "extract_loop cfg ls [] [] = extract_loop cfg rest ?C [l]"
    using Cons by (simp add: Let_def)
  obtain k where "extract_loop cfg rest ?C [l] = [l] @ take k rest"
    using extract_loop_take [of cfg rest ?C "[l]"] by blast
  with r ok Cons show ?thesis by simp
qed

lemma tryExtractTable_Some:
  assumes "tryExtractTable cfg lines i = Some t"
  shows "i < length lines \<and> table_ok cfg t \<and> (\<exists>k. t = take k (drop i lines))"
proof -
  from assms have i: "i < length lines" and t: "t = extract_loop cfg (drop i lines) [] []"
    and len: "MIN_TABLE_ROWS cfg \<le> length t"
    by (auto simp: tryExtractTable_def Let_def split: if_splits)
  have pre: "\<exists>k. t = take k (drop i lines)"
    using extract_loop_take [of cfg "drop i lines" "[]" "[]"] t by simp
  have "t \<noteq> [] \<longrightarrow>
        MIN_TABLE_COLS cfg \<le> length (mergeColumnBuckets cfg (map p_x (line_items (hd t))))"
    using extract_loop_first [of cfg "drop i lines"] t by auto
  with i len pre show ?thesis by (simp add: table_ok_def)
qed

lemma seg_ok_end: "length lines \<le> i \<Longrightarrow> seg_ok cfg lines i []"
  by (simp add: seg_ok_def)

lemma seg_ok_para:
  assumes i: "i < length lines" and none: "tryExtractTable cfg lines i = None"
    and rest: "seg_ok cfg lines (Suc i) bs"
  shows "seg_ok cfg lines i (ParaBlock [lines ! i] # bs)"
proof -
  have cover: "concat (map block_lines (ParaBlock [lines ! i] # bs)) = drop i lines"
    using rest i by (simp add: seg_ok_def Cons_nth_drop_Suc)
  have ok: "list_all (block_ok cfg) (ParaBlock [lines ! i] # bs)"
    using rest by (simp add: seg_ok_def)
  have starts: "tryExtractTable cfg lines (i + p) \<noteq> None"
    if "tableStart (ParaBlock [lines ! i] # bs) p" for p
  proof -
    from that have p: "1 \<le> p" and ts: "tableStart bs (p - 1)" by simp_all
    from rest ts have "tryExtractTable cfg lines (Suc i + (p - 1)) \<noteq> None"
      unfolding seg_ok_def by blast
    moreover from p have "Suc i + (p - 1) = i + p" by simp
    ultimately show ?thesis by simp
  qed
  have members: "inTable (ParaBlock [lines ! i] # bs) p"
    if "i + p < length lines" "tryExtractTable cfg lines (i + p) \<noteq> None" for p
  proof -
    from that(2) none have p: "1 \<le> p" by (cases p) auto
    then have eq: "Suc i + (p - 1) = i + p" by simp
    from rest that eq have "inTable bs (p - 1)" unfolding seg_ok_def by metis
    with p show ?thesis by simp
  qed
  from cover ok starts members show ?thesis unfolding seg_ok_def by blast
qed

lemma seg_ok_table:
  assumes some: "tryExtractTable cfg lines i = Some t" and tpos: "0 < length t"
    and rest: "seg_ok cfg lines (i + length t) bs"
  shows "seg_ok cfg lines i (TableBlock t # bs)"
proof -
  from tryExtractTable_Some [OF some] obtain k
    where ok: "table_ok cfg t" and tk: "t = take k (drop i lines)" by blast
  have "drop (i + length t) lines = drop (length t) (drop i lines)"
    by (simp add: add.commute)
  moreover have "t @ drop (length t) (drop i lines) = drop i lines"
  proof -
    have "length t = min k (length (drop i lines))" using tk by simp
    then have "drop (length t) (drop i lines) = drop k (drop i lines)"
      by (cases "k \<le> length (drop i lines)") (simp_all add: min_def)
    then show ?thesis by (simp only: tk append_take_drop_id)
  qed
  ultimately have cover: "concat (map block_lines (TableBlock t # bs)) = drop i lines"
    using rest by (simp add: seg_ok_def)
  have oks: "list_all (block_ok cfg) (TableBlock t # bs)"
    using rest ok by (simp add: seg_ok_def)
  have starts: "tryExtractTable cfg lines (i + p) \<noteq> None"
    if "tableStart (TableBlock t # bs) p" for p
  proof (cases "p = 0")
    case True
    with some show ?thesis by simp
  next
    case False
    with that have p: "length t \<le> p" and ts: "tableStart bs (p - length t)" by simp_all
    from rest ts have "tryExtractTable cfg lines (i + length t + (p - length t)) \<noteq> None"
      unfolding seg_ok_def by blast
    moreover from p have "i + length t + (p - length t) = i + p" by simp
    ultimately show ?thesis by simp
  qed
  have members: "inTable (TableBlock t # bs) p"
    if "i + p < length lines" "tryExtractTable cfg lines (i + p) \<noteq> None" for p
  proof (cases "p < length t")
    case True
    then show ?thesis by simp
  next
    case False
    then have eq: "i + length t + (p - length t) = i + p" by simp
    from rest that eq have "inTable bs (p - length t)" unfolding seg_ok_def by metis
    with False show ?thesis by simp
  qed
  from cover oks starts members show ?thesis unfolding seg_ok_def by blast
qed

text \<open>
  The segmentation loop, started at index \<open>i\<close> with the blocks \<open>acc\<close>: with a
  positive \<open>MIN_TABLE_ROWS\<close> it returns, and the blocks it adds satisfy \<open>seg_ok\<close>.
  The induction is on the number of lines left.
\<close>

lemma segment_loop_seg_ok:
  assumes pos: "0 < MIN_TABLE_ROWS cfg"
  shows "i \<le> length lines \<Longrightarrow>
         \<exists>bs. segment_loop cfg lines i acc = Some (acc @ bs) \<and> seg_ok cfg lines i bs"
proof (induction "length lines - i" arbitrary: i acc rule: less_induct)
  case less
  show ?case
  proof (cases "i < length lines")
    case False
    with less.prems have "segment_loop cfg lines i acc = Some (acc @ [])"
      by (subst segment_loop.simps) simp
    moreover from False have "seg_ok cfg lines i []" by (simp add: seg_ok_end)
    ultimately show ?thesis by blast
  next
    case True
    show ?thesis
    proof (cases "tryExtractTable cfg lines i")
      case None
      with True have step: "segment_loop cfg lines i acc =
          segment_loop cfg lines (i + 1) (acc @ [ParaBlock [lines ! i]])"
        by (subst segment_loop.simps) simp
      have "length lines - (i + 1) < length lines - i" using True by simp
      moreover have "i + 1 \<le> length lines" using True by simp
      ultimately obtain bs where bs:
        "segment_loop cfg lines (i + 1) (acc @ [ParaBlock [lines ! i]])
           = Some ((acc @ [ParaBlock [lines ! i]]) @ bs)"
        "seg_ok cfg lines (i + 1) bs"
        using less.hyps [of "i + 1" "acc @ [ParaBlock [lines ! i]]"] by blast
      from bs(2) have "seg_ok cfg lines i (ParaBlock [lines ! i] # bs)"
        using seg_ok_para [OF True None] by simp
      with bs(1) step show ?thesis
        by (intro exI [of _ "ParaBlock [lines ! i] # bs"]) simp
    next
      case (Some t)
      from tryExtractTable_Some [OF Some] obtain k
        where ok: "table_ok cfg t" and tk: "t = take k (drop i lines)" by blast
      from ok have len: "MIN_TABLE_ROWS cfg \<le> length t" by (simp add: table_ok_def)
      with pos have tpos: "0 < length t" by linarith
      have tle: "i + length t \<le> length lines" using tk True by simp
      from Some True len have step: "segment_loop cfg lines i acc =
          segment_loop cfg lines (i + length t) (acc @ [TableBlock t])"
        by (subst segment_loop.simps) simp
      have "length lines - (i + length t) < length lines - i" using True tpos by linarith
      with tle obtain bs where bs:
        "segment_loop cfg lines (i + length t) (acc @ [TableBlock t])
           = Some ((acc @ [TableBlock t]) @ bs)"
        "seg_ok cfg lines (i + length t) bs"
        using less.hyps [of "i + length t" "acc @ [TableBlock t]"] by blast
      from bs(2) have "seg_ok cfg lines i (TableBlock t # bs)"
        by (rule seg_ok_table [OF Some tpos])
      with bs(1) step show ?thesis
        by (intro exI [of _ "TableBlock t # bs"]) simp
    qed
  qed
qed

lemma segment_loop_spec:
  assumes pos: "0 < MIN_TABLE_ROWS cfg"
  shows "i \<le> length lines \<Longrightarrow>
         \<exists>bs. segment_loop cfg lines i acc = Some (acc @ bs) \<and>
              concat (map block_lines bs) = drop i lines \<and> (\<forall>b \<in> set bs. block_ok cfg b)"
  using segment_loop_seg_ok [OF pos, of i lines acc] by (auto simp: seg_ok_def list_all_iff)

text \<open>
  With the same column tolerance and a higher \<open>MIN_TABLE_COLS\<close>, the loop of
  \<^verbatim>\<open>tryExtractTable\<close> stops no later: as long as neither loop has stopped both
  hold the same buckets and the same lines.
\<close>

lemma extract_loop_mono:
  assumes tol: "COL_TOLERANCE hi = COL_TOLERANCE lo"
    and cols: "MIN_TABLE_COLS lo \<le> MIN_TABLE_COLS hi"
  shows "prefix (extract_loop hi ls C acc) (extract_loop lo ls C acc)"
proof (induction ls arbitrary: C acc)
  case Nil
  show ?case by simp
next
  case (Cons l ls)
  let ?xs = "map p_x (line_items l)"
  let ?matched = "filter (\<lambda>v. \<exists>b \<in> set C. \<bar>v - b\<bar> \<le> COL_TOLERANCE lo) ?xs"
  have m: "mergeColumnBuckets hi ys = mergeColumnBuckets lo ys" for ys
    by (rule mergeColumnBuckets_cong [OF tol])
  have stop: "prefix acc (extract_loop lo (l # ls) C acc)" by (rule extract_loop_extends)
  show ?case
  proof (cases "length (line_items l) < MIN_TABLE_COLS hi")
    case True
    with stop show ?thesis by simp
  next
    case few: False
    with cols have few_lo: "\<not> length (line_items l) < MIN_TABLE_COLS lo" by simp
    show ?thesis
    proof (cases "length C = 0")
      case True
      show ?thesis
      proof (cases "length (mergeColumnBuckets lo ?xs) < MIN_TABLE_COLS hi")
        case narrow: True
        have "extract_loop hi (l # ls) C acc = acc"
          using few True narrow by (simp add: Let_def m)
        with stop show ?thesis by simp
      next
        case False
        with cols have lo_ok: "\<not> length (mergeColumnBuckets lo ?xs) < MIN_TABLE_COLS lo" by simp
        have "extract_loop hi (l # ls) C acc
              = extract_loop hi ls (mergeColumnBuckets lo ?xs) (acc @ [l])"
          using few True False by (simp add: Let_def m)
        moreover have "extract_loop lo (l # ls) C acc
              = extract_loop lo ls (mergeColumnBuckets lo ?xs) (acc @ [l])"
          using few_lo True lo_ok by (simp add: Let_def)
        ultimately show ?thesis using Cons.IH by simp
      qed
    next
      case nonempty: False
      show ?thesis
      proof (cases "length ?matched < MIN_TABLE_COLS hi")
        case True
        have "extract_loop hi (l # ls) C acc = acc"
          using few nonempty True by (simp add: Let_def tol)
        with stop show ?thesis by simp
      next
        case False
        with cols have lo_ok: "\<not> length ?matched < MIN_TABLE_COLS lo" by simp
        have "extract_loop hi (l # ls) C acc
              = extract_loop hi ls (mergeColumnBuckets lo (C @ ?xs)) (acc @ [l])"
          using few nonempty False by (simp add: Let_def m tol)
        moreover have "extract_loop lo (l # ls) C acc
              = extract_loop lo ls (mergeColumnBuckets lo (C @ ?xs)) (acc @ [l])"
          using few_lo nonempty lo_ok by (simp add: Let_def)
        ultimately show ?thesis using Cons.IH by simp
      qed
    qed
  qed
qed

section \<open>Emitted elements\<close>

lemma emit_loop_eq: "emit_loop cfg bs acc = acc @ concat (map (blockElements cfg) bs)"
  by (induction cfg bs acc rule: emit_loop.induct) simp_all

lemma blockElements_no_PageBreak: "PageBreak \<notin> set (blockElements cfg b)"
  by (cases b) (auto simp: tableBlockToElement_def paraBlockToElements_def Let_def)

lemma blockElements_nonempty: "block_ok cfg b \<Longrightarrow> blockElements cfg b \<noteq> []"
  by (cases b) (auto simp: paraBlockToElements_def)

lemma ocrParagraphs_no_PageBreak: "PageBreak \<notin> set (ocrParagraphs t)"
  by (auto simp: ocrParagraphs_def)

text \<open>
  The table element of a well-formed table block. Two values of the first line are
  more than the tolerance apart; they are among all values of the block, so the
  buckets of the block are at least two. Every cell index is then inside the row.
\<close>

lemma tableBlockToElement_shape:
  assumes ok: "table_ok cfg ls" and tol: "0 \<le> COL_TOLERANCE cfg"
    and rows: "0 < MIN_TABLE_ROWS cfg" and cols: "2 \<le> MIN_TABLE_COLS cfg"
    and el: "tableBlockToElement cfg ls = Table rows n"
  shows "2 \<le> n \<and> MIN_TABLE_ROWS cfg \<le> length rows \<and> (\<forall>r \<in> set rows. length r = n)"
proof -
  let ?allXs = "concat (map (\<lambda>l. map p_x (line_items l)) ls)"
  let ?C = "mergeColumnBuckets cfg ?allXs"
  from el have n: "n = length ?C"
    and r: "rows = map (\<lambda>line. fill_cells ?C (line_items line) (replicate (length ?C) [])) ls"
    unfolding tableBlockToElement_def Let_def by auto
  from ok rows have ne: "ls \<noteq> []" by (auto simp: table_ok_def)
  with ok cols have "2 \<le> length (mergeColumnBuckets cfg (map p_x (line_items (hd ls))))"
    by (simp add: table_ok_def)
  then obtain a b where ab: "a \<in> set (map p_x (line_items (hd ls)))"
      "b \<in> set (map p_x (line_items (hd ls)))" "COL_TOLERANCE cfg < b - a"
    using mergeColumnBuckets_two [OF tol] by blast
  have sub: "set (map p_x (line_items (hd ls))) \<subseteq> set ?allXs"
    using ne by (cases ls) auto
  from ab sub have "\<exists>a \<in> set ?allXs. \<exists>b \<in> set ?allXs. COL_TOLERANCE cfg < b - a" by blast
  then have two: "2 \<le> length ?C" using mergeColumnBuckets_two [OF tol] by blast
  then have Cne: "?C \<noteq> []" by auto
  have "length (fill_cells ?C its (replicate (length ?C) [])) = length ?C" for its
    by (rule fill_cells_length [OF Cne]) simp
  with r n have "\<forall>r \<in> set rows. length r = n" by auto
  moreover from ok r have "MIN_TABLE_ROWS cfg \<le> length rows" by (simp add: table_ok_def)
  ultimately show ?thesis using two n by simp
qed

text \<open>
  The core returns whenever \<open>MIN_TABLE_ROWS\<close> is positive: its elements are those
  of well-formed blocks that cover the lines of the page.
\<close>

lemma buildDocElements_blocks:
  assumes pos: "0 < MIN_TABLE_ROWS cfg"
  shows "\<exists>bs. buildDocElements cfg items H = Some (concat (map (blockElements cfg) bs)) \<and>
              concat (map block_lines bs) = groupIntoLines cfg (toPositioned items H) \<and>
              (\<forall>b \<in> set bs. block_ok cfg b) \<and> (toPositioned items H = [] \<longrightarrow> bs = [])"
proof (cases "toPositioned items H = []")
  case True
  then have "buildDocElements cfg items H = Some (concat (map (blockElements cfg) []))"
    by (simp add: buildDocElements_def)
  moreover from True have "groupIntoLines cfg (toPositioned items H) = []"
    by (simp add: groupIntoLines_def)
  ultimately show ?thesis by (intro exI [of _ "[]"]) simp
next
  case False
  obtain bs where bs:
      "segment_loop cfg (groupIntoLines cfg (toPositioned items H)) 0 [] = Some ([] @ bs)"
      "concat (map block_lines bs) = drop 0 (groupIntoLines cfg (toPositioned items H))"
      "\<forall>b \<in> set bs. block_ok cfg b"
    using segment_loop_spec [OF pos, of 0 "groupIntoLines cfg (toPositioned items H)" "[]"] by blast
  with False have "buildDocElements cfg items H = Some (concat (map (blockElements cfg) bs))"
    by (simp add: buildDocElements_def segmentIntoBlocks_def emit_loop_eq)
  with bs False show ?thesis by (intro exI [of _ bs]) simp
qed

lemma digital_nonempty:
  assumes "TEXT_THRESHOLD \<le> length (embeddedRaw items)"
  shows "\<exists>els. buildDocElements defaults items H = Some els \<and> els \<noteq> []"
proof -
  from assms have "embeddedRaw items \<noteq> []" by (auto simp: TEXT_THRESHOLD_def)
  then have "\<not> (\<forall>c \<in> set (concat (map str (textItems items))). isWhiteSpace c)"
    by (simp add: embeddedRaw_def trim_Nil_iff)
  then obtain item where "item \<in> set (textItems items)" "trim (str item) \<noteq> []"
    by (auto simp: trim_Nil_iff)
  then have "filter (\<lambda>item. trim (str item) \<noteq> []) (textItems items) \<noteq> []"
    by (auto simp: filter_empty_conv)
  then have pos: "toPositioned items H \<noteq> []"
    by (simp add: toPositioned_def toPositioned_loop_eq)
  obtain bs where bs:
      "buildDocElements defaults items H = Some (concat (map (blockElements defaults) bs))"
      "concat (map block_lines bs) = groupIntoLines defaults (toPositioned items H)"
      "\<forall>b \<in> set bs. block_ok defaults b"
    using buildDocElements_blocks [of defaults items H] by auto
  from pos have "groupIntoLines defaults (toPositioned items H) \<noteq> []"
    by (rule groupIntoLines_nonempty)
  with bs(2) have "bs \<noteq> []" by auto
  then obtain b where "b \<in> set bs" by (cases bs) auto
  with bs(3) have "blockElements defaults b \<noteq> []" by (simp add: blockElements_nonempty)
  with \<open>b \<in> set bs\<close> have "concat (map (blockElements defaults) bs) \<noteq> []" by auto
  with bs(1) show ?thesis by simp
qed

section \<open>The page loop\<close>

lemma page_loop_eq:
  "\<exists>u. page_loop pages n acc used = Some (acc @ assemble n (map pageElements pages), u)"
proof (induction pages arbitrary: n acc used)
  case Nil
  show ?case by simp
next
  case (Cons page pages)
  let ?acc1 = "if n > 1 then acc @ [PageBreak] else acc"
  show ?case
  proof (cases "length (embeddedRaw (page_items page)) \<ge> TEXT_THRESHOLD")
    case True
    obtain els where els:
        "buildDocElements defaults (page_items page) (page_height page) = Some els"
      using buildDocElements_blocks [of defaults "page_items page" "page_height page"] by auto
    from Cons.IH [of "n + 1" "?acc1 @ els" used] obtain u
      where "page_loop pages (n + 1) (?acc1 @ els) used
             = Some ((?acc1 @ els) @ assemble (n + 1) (map pageElements pages), u)" by blast
    moreover from True els have "pageElements page = els" by (simp add: pageElements_def)
    ultimately show ?thesis using True els by (auto simp: Let_def)
  next
    case False
    from Cons.IH [of "n + 1" "?acc1 @ ocrParagraphs (page_ocrText page)" True] obtain u
      where "page_loop pages (n + 1) (?acc1 @ ocrParagraphs (page_ocrText page)) True
             = Some ((?acc1 @ ocrParagraphs (page_ocrText page))
                      @ assemble (n + 1) (map pageElements pages), u)"
      by blast
    moreover from False have "pageElements page = ocrParagraphs (page_ocrText page)"
      by (simp add: pageElements_def)
    ultimately show ?thesis using False by (auto simp: Let_def)
  qed
qed

lemma pageElements_no_PageBreak: "PageBreak \<notin> set (pageElements page)"
proof (cases "length (embeddedRaw (page_items page)) \<ge> TEXT_THRESHOLD")
  case True
  obtain bs where "buildDocElements defaults (page_items page) (page_height page)
      = Some (concat (map (blockElements defaults) bs))"
    using buildDocElements_blocks [of defaults "page_items page" "page_height page"] by auto
  moreover have "PageBreak \<notin> set (concat (map (blockElements defaults) bs))"
    using blockElements_no_PageBreak by auto
  ultimately show ?thesis using True by (simp add: pageElements_def)
next
  case False
  then show ?thesis by (simp add: pageElements_def ocrParagraphs_no_PageBreak)
qed

lemma pageElements_nonempty: "\<not> blankScan page \<Longrightarrow> pageElements page \<noteq> []"
proof (cases "TEXT_THRESHOLD \<le> length (embeddedRaw (page_items page))")
  case True
  from digital_nonempty [OF True, of "page_height page"] True
  show ?thesis by (auto simp: pageElements_def)
next
  case False
  assume "\<not> blankScan page"
  with False have "\<exists>l \<in> set (split (CHR 0x0A) (page_ocrText page)). trim l \<noteq> []"
    by (auto simp: blankScan_def list_all_iff)
  then have "filter (\<lambda>l. l \<noteq> []) (map trim (split (CHR 0x0A) (page_ocrText page))) \<noteq> []"
    by (auto simp: filter_empty_conv)
  with False show ?thesis by (simp add: pageElements_def ocrParagraphs_def)
qed

lemma count_assemble:
  "\<forall>p \<in> set ps. PageBreak \<notin> set p \<Longrightarrow> 1 < n \<Longrightarrow>
   count_list (assemble n ps) PageBreak = length ps"
  by (induction ps arbitrary: n) (simp_all add: count_list_0_iff)

lemma count_assemble_first:
  assumes "\<forall>p \<in> set (p0 # ps). PageBreak \<notin> set p"
  shows "count_list (assemble 1 (p0 # ps)) PageBreak = length ps"
proof -
  from assms have "count_list p0 PageBreak = 0" by (simp add: count_list_0_iff)
  moreover have "count_list (assemble (Suc (Suc 0)) ps) PageBreak = length ps"
    using assms by (intro count_assemble) simp_all
  ultimately show ?thesis by simp
qed

lemma last_assemble:
  "ps \<noteq> [] \<Longrightarrow> last ps \<noteq> [] \<Longrightarrow> assemble n ps \<noteq> [] \<and> last (assemble n ps) = last (last ps)"
proof (induction ps arbitrary: n)
  case Nil
  then show ?case by simp
next
  case (Cons p ps)
  show ?case
  proof (cases "ps = []")
    case True
    with Cons.prems show ?thesis by simp
  next
    case False
    with Cons.prems have "last ps \<noteq> []" by simp
    from Cons.IH [OF False this, of "n + 1"] False show ?thesis by simp
  qed
qed

section \<open>The claims\<close>

text \<open>
  C1 (table shape). Every \<open>Table\<close> element that \<^verbatim>\<open>buildDocElements\<close> emits has at
  least \<open>MIN_TABLE_COLS = 2\<close> columns and at least \<open>MIN_TABLE_ROWS = 2\<close> rows, and
  every row has exactly \<open>colCount\<close> cells, although \<^verbatim>\<open>tableBlockToElement\<close>
  computes the buckets anew from all x values of the block. The core returns on every
  input.
\<close>

theorem table_shape:
  "\<exists>els. buildDocElements defaults items H = Some els \<and>
      (\<forall>rows n. Table rows n \<in> set els \<longrightarrow>
          MIN_TABLE_COLS defaults \<le> n \<and> MIN_TABLE_ROWS defaults \<le> length rows \<and>
          MIN_TABLE_COLS defaults = 2 \<and> MIN_TABLE_ROWS defaults = 2 \<and>
          (\<forall>r \<in> set rows. length r = n))"
proof -
  obtain bs where bs:
      "buildDocElements defaults items H = Some (concat (map (blockElements defaults) bs))"
      "\<forall>b \<in> set bs. block_ok defaults b"
    using buildDocElements_blocks [of defaults items H] by auto
  have "MIN_TABLE_COLS defaults \<le> n \<and> MIN_TABLE_ROWS defaults \<le> length rows \<and>
        MIN_TABLE_COLS defaults = 2 \<and> MIN_TABLE_ROWS defaults = 2 \<and>
        (\<forall>r \<in> set rows. length r = n)"
    if "Table rows n \<in> set (concat (map (blockElements defaults) bs))" for rows n
  proof -
    from that obtain b where b: "b \<in> set bs" "Table rows n \<in> set (blockElements defaults b)"
      by auto
    show ?thesis
    proof (cases b)
      case (TableBlock ls)
      with b bs(2) have "table_ok defaults ls" "tableBlockToElement defaults ls = Table rows n"
        by auto
      from tableBlockToElement_shape [OF this(1) _ _ _ this(2)] show ?thesis by simp
    next
      case (ParaBlock ls)
      with b show ?thesis by (auto simp: paraBlockToElements_def Let_def)
    qed
  qed
  with bs(1) show ?thesis by blast
qed

text \<open>The two aligned rows of scenario S1 give one table of two rows and two columns.\<close>

theorem table_shape_witness:
  "buildDocElements defaults
      [glyph ''A'' 50 80, glyph ''B'' 150 80, glyph ''C'' 50 60, glyph ''D'' 150 60] 100
     = Some [Table [[''A'', ''B''], [''C'', ''D'']] 2]
   \<and> MIN_TABLE_COLS defaults \<le> 2
   \<and> MIN_TABLE_ROWS defaults \<le> length [[''A'', ''B''], [''C'', ''D'']]
   \<and> list_all (\<lambda>r. length r = 2) [[''A'', ''B''], [''C'', ''D'']]"
proof -
  have run: "buildDocElements defaults
      [glyph ''A'' 50 80, glyph ''B'' 150 80, glyph ''C'' 50 60, glyph ''D'' 150 60] 100
     = Some [Table [[''A'', ''B''], [''C'', ''D'']] 2]"
    by (simp add: pipeline_eval glyph_def)
  from table_shape [of "[glyph ''A'' 50 80, glyph ''B'' 150 80, glyph ''C'' 50 60, glyph ''D'' 150 60]" 100]
  obtain els where els: "buildDocElements defaults
      [glyph ''A'' 50 80, glyph ''B'' 150 80, glyph ''C'' 50 60, glyph ''D'' 150 60] 100 = Some els"
    and shape: "\<forall>rows n. Table rows n \<in> set els \<longrightarrow>
          MIN_TABLE_COLS defaults \<le> n \<and> MIN_TABLE_ROWS defaults \<le> length rows \<and>
          MIN_TABLE_COLS defaults = 2 \<and> MIN_TABLE_ROWS defaults = 2 \<and>
          (\<forall>r \<in> set rows. length r = n)"
    by blast
  from els run have "Table [[''A'', ''B''], [''C'', ''D'']] 2 \<in> set els" by auto
  with shape have "MIN_TABLE_COLS defaults \<le> 2
      \<and> MIN_TABLE_ROWS defaults \<le> length [[''A'', ''B''], [''C'', ''D'']]" by blast
  with run show ?thesis by simp
qed

text \<open>
  C2 (coverage). For every list of lines \<^verbatim>\<open>segmentIntoBlocks\<close> returns, and the
  lines of its blocks, concatenated in output order, are the input lines.
\<close>

theorem segmentIntoBlocks_coverage:
  "\<exists>blocks. segmentIntoBlocks defaults lines = Some blocks \<and>
            concat (map block_lines blocks) = lines"
  using segment_loop_spec [of defaults 0 lines "[]"] by (auto simp: segmentIntoBlocks_def)

theorem segmentIntoBlocks_coverage_witness:
  "segmentIntoBlocks defaults [lineAt 0 [50, 150], lineAt 20 [50, 150], lineAt 40 [50]]
     = Some [TableBlock [lineAt 0 [50, 150], lineAt 20 [50, 150]], ParaBlock [lineAt 40 [50]]]
   \<and> concat (map block_lines
        [TableBlock [lineAt 0 [50, 150], lineAt 20 [50, 150]], ParaBlock [lineAt 40 [50]]])
     = [lineAt 0 [50, 150], lineAt 20 [50, 150], lineAt 40 [50]]"
proof -
  have run: "segmentIntoBlocks defaults [lineAt 0 [50, 150], lineAt 20 [50, 150], lineAt 40 [50]]
     = Some [TableBlock [lineAt 0 [50, 150], lineAt 20 [50, 150]], ParaBlock [lineAt 40 [50]]]"
    by (simp add: pipeline_eval lineAt_def)
  from segmentIntoBlocks_coverage [of "[lineAt 0 [50, 150], lineAt 20 [50, 150], lineAt 40 [50]]"]
    run show ?thesis by auto
qed

text \<open>
  C3 (page breaks), as amended. For a document of \<open>N \<ge> 1\<close> pages the page loop
  returns a list with exactly \<open>N - 1\<close> page breaks. The element at index 0 is no page
  break unless the first page is a scanned page whose OCR text has no non-blank line,
  and the element at the last index is no page break unless the last page is such a
  page. (A page with embedded text always contributes an element.)
\<close>

theorem page_break_placement:
  "\<exists>r. processPdfClientSide pages = Some r \<and>
     (pages \<noteq> [] \<longrightarrow> Suc (count_list (res_elements r) PageBreak) = length pages) \<and>
     (pages \<noteq> [] \<and> \<not> blankScan (hd pages) \<longrightarrow>
        res_elements r \<noteq> [] \<and> res_elements r ! 0 \<noteq> PageBreak) \<and>
     (pages \<noteq> [] \<and> \<not> blankScan (last pages) \<longrightarrow>
        res_elements r \<noteq> [] \<and> res_elements r ! (length (res_elements r) - 1) \<noteq> PageBreak)"
proof -
  let ?els = "assemble 1 (map pageElements pages)"
  obtain u where loop: "page_loop pages 1 [] False = Some ([] @ ?els, u)"
    using page_loop_eq [of pages 1 "[]" False] by blast
  let ?r = "\<lparr>res_elements = ?els, res_text = elementsToText ?els,
             res_pageCount = length pages, res_usedOcr = u\<rparr>"
  from loop have r: "processPdfClientSide pages = Some ?r"
    by (simp add: processPdfClientSide_def)
  have cnt: "Suc (count_list ?els PageBreak) = length pages" if "pages \<noteq> []"
  proof -
    from that obtain p ps where pages: "pages = p # ps" by (cases pages) auto
    have "count_list (assemble 1 (pageElements p # map pageElements ps)) PageBreak
          = length (map pageElements ps)"
      by (rule count_assemble_first) (auto simp: pageElements_no_PageBreak)
    with pages show ?thesis by simp
  qed
  have first: "?els \<noteq> [] \<and> ?els ! 0 \<noteq> PageBreak" if "pages \<noteq> []" "\<not> blankScan (hd pages)"
  proof -
    from that obtain p ps where pages: "pages = p # ps" by (cases pages) auto
    with that have ne: "pageElements p \<noteq> []" by (simp add: pageElements_nonempty)
    then have "?els ! 0 = pageElements p ! 0" using pages by (simp add: nth_append)
    moreover have "pageElements p ! 0 \<in> set (pageElements p)" using ne by simp
    ultimately have "?els ! 0 \<noteq> PageBreak" using pageElements_no_PageBreak [of p] by metis
    with ne pages show ?thesis by simp
  qed
  have final: "?els \<noteq> [] \<and> ?els ! (length ?els - 1) \<noteq> PageBreak"
    if "pages \<noteq> []" "\<not> blankScan (last pages)"
  proof -
    from that have ne: "last (map pageElements pages) \<noteq> []"
      by (simp add: last_map pageElements_nonempty)
    from that have "map pageElements pages \<noteq> []" by simp
    from last_assemble [OF this ne, of 1]
    have a: "?els \<noteq> []" and b: "last ?els = last (pageElements (last pages))"
      using that by (simp_all add: last_map)
    have "last (pageElements (last pages)) \<in> set (pageElements (last pages))"
      using ne that by (simp add: last_map)
    with b have "last ?els \<noteq> PageBreak"
      using pageElements_no_PageBreak [of "last pages"] by metis
    with a show ?thesis by (simp add: last_conv_nth)
  qed
  from r cnt first final show ?thesis by (intro exI [of _ ?r]) simp
qed

text \<open>Two scanned pages with one line of text each.\<close>

theorem page_break_placement_witness:
  "[scannedPage ''a'', scannedPage ''b''] \<noteq> []
   \<and> \<not> blankScan (hd [scannedPage ''a'', scannedPage ''b''])
   \<and> \<not> blankScan (last [scannedPage ''a'', scannedPage ''b''])
   \<and> (\<exists>r. processPdfClientSide [scannedPage ''a'', scannedPage ''b''] = Some r
        \<and> res_elements r = [Paragraph ''a'' False, PageBreak, Paragraph ''b'' False]
        \<and> Suc (count_list (res_elements r) PageBreak) = 2
        \<and> res_elements r ! 0 \<noteq> PageBreak
        \<and> res_elements r ! (length (res_elements r) - 1) \<noteq> PageBreak)"
proof -
  have b: "\<not> blankScan (scannedPage ''a'')" "\<not> blankScan (scannedPage ''b'')"
    by (simp_all add: page_eval)
  have run: "map_option res_elements (processPdfClientSide [scannedPage ''a'', scannedPage ''b''])
      = Some [Paragraph ''a'' False, PageBreak, Paragraph ''b'' False]"
    by (simp add: page_eval)
  from page_break_placement [of "[scannedPage ''a'', scannedPage ''b'']"] b run
  show ?thesis by auto
qed

text \<open>
  The claim as stated fails: when the first of two scanned pages has an empty OCR
  text, the page break is the element at index 0; when the last has only blanks, the
  page break is the element at the last index.
\<close>

theorem page_break_placement_counterexample:
  "map_option res_elements (processPdfClientSide [scannedPage [], scannedPage ''b''])
     = Some [PageBreak, Paragraph ''b'' False]
   \<and> map_option res_elements (processPdfClientSide [scannedPage ''a'', scannedPage ''  ''])
     = Some [Paragraph ''a'' False, PageBreak]"
  by (simp add: page_eval)

text \<open>
  C4 (errors), as amended. The core never raises \<open>MalformedInput\<close>: whatever the
  page height, positive or not, it returns a list of elements, and the empty list for
  the empty list of items.
\<close>

theorem core_never_raises:
  "(\<exists>els. coreOutcome items H = Some (Inr els)) \<and> coreOutcome [] H = Some (Inr [])"
proof -
  obtain bs where "buildDocElements defaults items H
      = Some (concat (map (blockElements defaults) bs))"
    using buildDocElements_blocks [of defaults items H] by auto
  then have "\<exists>els. coreOutcome items H = Some (Inr els)" by (simp add: coreOutcome_def)
  moreover have "coreOutcome [] H = Some (Inr [])"
    by (simp add: coreOutcome_def buildDocElements_def toPositioned_def)
  ultimately show ?thesis by simp
qed

theorem core_never_raises_witness:
  "coreOutcome [glyph ''A'' 50 700] (- 5) = Some (Inr [Paragraph ''A'' True])
   \<and> coreOutcome [] (- 5) = Some (Inr [])"
proof -
  have "coreOutcome [glyph ''A'' 50 700] (- 5) = Some (Inr [Paragraph ''A'' True])"
    by (simp add: coreOutcome_def pipeline_eval glyph_def)
  with core_never_raises [of "[glyph ''A'' 50 700]" "- 5"] show ?thesis by simp
qed

text \<open>
  The claim as stated fails: with the page height 0, which is not positive, the core
  returns the paragraph of the page and raises nothing.
\<close>

theorem malformed_input_counterexample:
  "\<not> (0 :: real) < 0
   \<and> coreOutcome [glyph ''A'' 50 700] 0 = Some (Inr [Paragraph ''A'' True])
   \<and> coreOutcome [glyph ''A'' 50 700] 0 \<noteq> Some (Inl MalformedInput)"
  by (simp add: coreOutcome_def pipeline_eval glyph_def)

text \<open>
  C5 (normalisation). \<^verbatim>\<open>toPositioned\<close> drops every marked-content item and every
  text item whose string is empty after trimming, and maps each remaining item, in
  input order, to \<open>x = transform[4]\<close>, \<open>y = H - transform[5] - |height|\<close>,
  \<open>height = |height|\<close>, with string, width and font name unchanged.
\<close>

theorem toPositioned_normalises:
  "toPositioned items H =
     map (\<lambda>item. \<lparr>p_str = str item, p_x = transform item ! 4,
                  p_y = H - transform item ! 5 - \<bar>height item\<bar>,
                  p_width = width item, p_height = \<bar>height item\<bar>, p_fontName = fontName item\<rparr>)
         (filter (\<lambda>item. trim (str item) \<noteq> []) (textItems items))"
  using toPositioned_loop_eq [of items H "[]"] by (simp add: toPositioned_def)

text \<open>A marker, a run of blanks and a run of negative height on a page of height 792.\<close>

theorem toPositioned_normalises_witness:
  "toPositioned
     [MarkedContent ''beginMarkedContent'', glyph ''  '' 10 700,
      Text \<lparr>str = ''A'', transform = [1, 0, 0, 1, 50, 700], width = 5, height = - 10,
            fontName = ''f1''\<rparr>] 792
   = [\<lparr>p_str = ''A'', p_x = 50, p_y = 82, p_width = 5, p_height = 10, p_fontName = ''f1''\<rparr>]"
  using toPositioned_normalises
    [of "[MarkedContent ''beginMarkedContent'', glyph ''  '' 10 700,
          Text \<lparr>str = ''A'', transform = [1, 0, 0, 1, 50, 700], width = 5, height = - 10,
                fontName = ''f1''\<rparr>]" 792]
  by (simp add: glyph_def string_eval)

text \<open>
  C6 (raising the thresholds), as amended. With the other constants fixed, raising
  \<open>MIN_TABLE_ROWS\<close> or \<open>MIN_TABLE_COLS\<close> can only shrink what \<^verbatim>\<open>tryExtractTable\<close>
  returns at a given start line: where it returns a table under the higher thresholds,
  it returns under the lower thresholds, at the same start, a table that begins with
  the same lines. Hence every line at which a table begins in the segmentation under
  the higher thresholds belongs to a table in the segmentation under the lower ones.
\<close>

theorem raising_thresholds:
  assumes tol: "COL_TOLERANCE hi = COL_TOLERANCE lo"
    and cols: "MIN_TABLE_COLS lo \<le> MIN_TABLE_COLS hi"
    and rows: "MIN_TABLE_ROWS lo \<le> MIN_TABLE_ROWS hi"
    and pos: "0 < MIN_TABLE_ROWS lo"
  shows "(\<forall>start t'. tryExtractTable hi lines start = Some t' \<longrightarrow>
            (\<exists>t. tryExtractTable lo lines start = Some t \<and> prefix t' t))
       \<and> (\<exists>bh bl. segmentIntoBlocks hi lines = Some bh \<and> segmentIntoBlocks lo lines = Some bl \<and>
            (\<forall>p. tableStart bh p \<longrightarrow> inTable bl p))"
proof -
  have mono: "\<exists>t. tryExtractTable lo lines start = Some t \<and> prefix t' t"
    if "tryExtractTable hi lines start = Some t'" for start t'
  proof -
    let ?hi = "extract_loop hi (drop start lines) [] []"
    let ?lo = "extract_loop lo (drop start lines) [] []"
    from that have st: "start < length lines" and t': "t' = ?hi"
      and len: "MIN_TABLE_ROWS hi \<le> length t'"
      by (auto simp: tryExtractTable_def Let_def split: if_splits)
    have pre: "prefix ?hi ?lo" by (rule extract_loop_mono [OF tol cols])
    then have "length ?hi \<le> length ?lo" by (rule prefix_length_le)
    with len t' rows have "MIN_TABLE_ROWS lo \<le> length ?lo" by simp
    with st have "tryExtractTable lo lines start = Some ?lo"
      by (simp add: tryExtractTable_def Let_def)
    with pre t' show ?thesis by simp
  qed
  from pos rows have pos_hi: "0 < MIN_TABLE_ROWS hi" by linarith
  obtain bh where bh: "segmentIntoBlocks hi lines = Some bh" "seg_ok hi lines 0 bh"
    using segment_loop_seg_ok [OF pos_hi, of 0 lines "[]"] by (auto simp: segmentIntoBlocks_def)
  obtain bl where bl: "segmentIntoBlocks lo lines = Some bl" "seg_ok lo lines 0 bl"
    using segment_loop_seg_ok [OF pos, of 0 lines "[]"] by (auto simp: segmentIntoBlocks_def)
  have "inTable bl p" if "tableStart bh p" for p
  proof -
    from bh(2) that obtain t' where t': "tryExtractTable hi lines p = Some t'"
      unfolding seg_ok_def by force
    from mono [OF t'] obtain t where t: "tryExtractTable lo lines p = Some t" by blast
    then have "p < length lines" by (rule tryExtractTable_Some [THEN conjunct1])
    with bl(2) t show ?thesis unfolding seg_ok_def by force
  qed
  with bh(1) bl(1) mono show ?thesis by blast
qed

text \<open>
  On the first example page, with three columns required instead of two, a table
  begins at the third line (position 2); with two columns that line is the last of
  the table that begins at the first line.
\<close>

theorem raising_thresholds_witness:
  "COL_TOLERANCE (defaults\<lparr>MIN_TABLE_COLS := 3\<rparr>) = COL_TOLERANCE defaults
   \<and> MIN_TABLE_COLS defaults \<le> MIN_TABLE_COLS (defaults\<lparr>MIN_TABLE_COLS := 3\<rparr>)
   \<and> MIN_TABLE_ROWS defaults \<le> MIN_TABLE_ROWS (defaults\<lparr>MIN_TABLE_COLS := 3\<rparr>)
   \<and> 0 < MIN_TABLE_ROWS defaults
   \<and> tryExtractTable (defaults\<lparr>MIN_TABLE_COLS := 3\<rparr>) colsExample 2
       = Some [lineAt 20 [30, 60, 72, 90], lineAt 30 [100, 104, 108]]
   \<and> (\<exists>t. tryExtractTable defaults colsExample 2 = Some t
          \<and> prefix [lineAt 20 [30, 60, 72, 90], lineAt 30 [100, 104, 108]] t)
   \<and> (\<exists>bh bl. segmentIntoBlocks (defaults\<lparr>MIN_TABLE_COLS := 3\<rparr>) colsExample = Some bh
          \<and> segmentIntoBlocks defaults colsExample = Some bl
          \<and> tableStart bh 2 \<and> inTable bl 2)"
proof -
  have prems: "COL_TOLERANCE (defaults\<lparr>MIN_TABLE_COLS := 3\<rparr>) = COL_TOLERANCE defaults"
    "MIN_TABLE_COLS defaults \<le> MIN_TABLE_COLS (defaults\<lparr>MIN_TABLE_COLS := 3\<rparr>)"
    "MIN_TABLE_ROWS defaults \<le> MIN_TABLE_ROWS (defaults\<lparr>MIN_TABLE_COLS := 3\<rparr>)"
    "0 < MIN_TABLE_ROWS defaults"
    by simp_all
  have hi: "tryExtractTable (defaults\<lparr>MIN_TABLE_COLS := 3\<rparr>) colsExample 2
       = Some [lineAt 20 [30, 60, 72, 90], lineAt 30 [100, 104, 108]]"
    by (simp add: pipeline_eval colsExample_def lineAt_def)
  have seg: "segmentIntoBlocks (defaults\<lparr>MIN_TABLE_COLS := 3\<rparr>) colsExample
      = Some [ParaBlock [lineAt 0 [12, 42]], ParaBlock [lineAt 10 [12, 42]],
              TableBlock [lineAt 20 [30, 60, 72, 90], lineAt 30 [100, 104, 108]]]"
    by (simp add: pipeline_eval colsExample_def lineAt_def)
  from raising_thresholds [OF prems, of colsExample]
  have mono: "\<forall>start t'. tryExtractTable (defaults\<lparr>MIN_TABLE_COLS := 3\<rparr>) colsExample start = Some t' \<longrightarrow>
            (\<exists>t. tryExtractTable defaults colsExample start = Some t \<and> prefix t' t)"
    and "\<exists>bh bl. segmentIntoBlocks (defaults\<lparr>MIN_TABLE_COLS := 3\<rparr>) colsExample = Some bh \<and>
            segmentIntoBlocks defaults colsExample = Some bl \<and>
            (\<forall>p. tableStart bh p \<longrightarrow> inTable bl p)"
    by blast+
  then obtain bh bl where b: "segmentIntoBlocks (defaults\<lparr>MIN_TABLE_COLS := 3\<rparr>) colsExample = Some bh"
      "segmentIntoBlocks defaults colsExample = Some bl" "\<forall>p. tableStart bh p \<longrightarrow> inTable bl p"
    by blast
  from b(1) seg have "tableStart bh 2" by auto
  with b have segs: "\<exists>bh bl. segmentIntoBlocks (defaults\<lparr>MIN_TABLE_COLS := 3\<rparr>) colsExample = Some bh
          \<and> segmentIntoBlocks defaults colsExample = Some bl
          \<and> tableStart bh 2 \<and> inTable bl 2"
    by blast
  from mono hi have "\<exists>t. tryExtractTable defaults colsExample 2 = Some t
          \<and> prefix [lineAt 20 [30, 60, 72, 90], lineAt 30 [100, 104, 108]] t"
    by blast
  with prems hi segs show ?thesis by blast
qed

text \<open>
  The claim as stated fails, because the segmentation is greedy and a higher threshold
  moves the start of a table. With \<open>MIN_TABLE_COLS\<close> raised from 2 to 3, the fourth
  line of the first example, a paragraph before, is part of a table: the first two
  lines have two items and no longer start a table, and the third line starts one with
  buckets 30, 60, 90, which the fourth line matches, while the buckets 12, 42, 72 of
  the table that began at the first line did not. With \<open>MIN_TABLE_ROWS\<close> raised from
  2 to 3, the table of the first two lines of the second example is too short, so the
  second line starts a table that takes the third and fourth lines, paragraphs before.
\<close>

theorem raising_thresholds_counterexample:
  "segmentIntoBlocks defaults colsExample
    = Some [TableBlock [lineAt 0 [12, 42], lineAt 10 [12, 42], lineAt 20 [30, 60, 72, 90]],
            ParaBlock [lineAt 30 [100, 104, 108]]]
   \<and> segmentIntoBlocks (defaults\<lparr>MIN_TABLE_COLS := 3\<rparr>) colsExample
    = Some [ParaBlock [lineAt 0 [12, 42]], ParaBlock [lineAt 10 [12, 42]],
            TableBlock [lineAt 20 [30, 60, 72, 90], lineAt 30 [100, 104, 108]]]
   \<and> segmentIntoBlocks defaults rowsExample
    = Some [TableBlock [lineAt 0 [0, 40], lineAt 10 [18, 58, 100]],
            ParaBlock [lineAt 20 [20, 76]], ParaBlock [lineAt 30 [50, 110]]]
   \<and> segmentIntoBlocks (defaults\<lparr>MIN_TABLE_ROWS := 3\<rparr>) rowsExample
    = Some [ParaBlock [lineAt 0 [0, 40]],
            TableBlock [lineAt 10 [18, 58, 100], lineAt 20 [20, 76], lineAt 30 [50, 110]]]"
  by (simp add: pipeline_eval colsExample_def rowsExample_def lineAt_def)

text \<open>
  C7 (headings). \<^verbatim>\<open>isHeadingText\<close> holds of a string exactly when its trimmed form
  has a length strictly between 0 and \<open>HEADING_MAX_LEN = 80\<close>, equals its own upper
  casing and contains a character in A to Z. \<^verbatim>\<open>"INTRODUCTION"\<close> is a heading;
  \<^verbatim>\<open>"Introduction"\<close> and \<^verbatim>\<open>"123"\<close> are not.
\<close>

theorem isHeadingText_characterisation:
  "(isHeadingText defaults s \<longleftrightarrow>
      0 < length (trim s) \<and> length (trim s) < 80 \<and> trim s = toUpperCase (trim s) \<and>
      (\<exists>c \<in> set (trim s). c \<in> set ''ABCDEFGHIJKLMNOPQRSTUVWXYZ''))
   \<and> HEADING_MAX_LEN defaults = 80
   \<and> isHeadingText defaults ''INTRODUCTION''
   \<and> \<not> isHeadingText defaults ''Introduction''
   \<and> \<not> isHeadingText defaults ''123''"
proof -
  have a: "isHeadingText defaults s \<longleftrightarrow>
      0 < length (trim s) \<and> length (trim s) < 80 \<and> trim s = toUpperCase (trim s) \<and>
      (\<exists>c \<in> set (trim s). c \<in> set ''ABCDEFGHIJKLMNOPQRSTUVWXYZ'')"
    unfolding isHeadingText_def Let_def list_ex_iff isAZ_set by (simp add: defaults_def)
  have b: "isHeadingText defaults ''INTRODUCTION''"
    by (simp add: isHeadingText_def defaults_def string_eval)
  have c: "\<not> isHeadingText defaults ''Introduction''"
    by (simp add: isHeadingText_def defaults_def string_eval)
  have d: "\<not> isHeadingText defaults ''123''"
    by (simp add: isHeadingText_def defaults_def string_eval)
  from a b c d show ?thesis by simp
qed

theorem isHeadingText_characterisation_witness:
  "isHeadingText defaults '' CHAPTER 1 '' \<and> trim '' CHAPTER 1 '' = ''CHAPTER 1''
   \<and> toUpperCase ''CHAPTER 1'' = ''CHAPTER 1''"
  using isHeadingText_characterisation [of "'' CHAPTER 1 ''"] by (simp add: string_eval)

text \<open>
  C8 (plain text). \<^verbatim>\<open>elementsToText\<close> joins the renderings of the elements with a
  line feed; a paragraph renders as its text, a page break as
  \<^verbatim>\<open>--- Page Break ---\<close>, and a table as its rows joined by line feeds, the cells of
  a row joined by a tab.
\<close>

theorem elementsToText_rendering:
  "elementsToText [] = []
   \<and> elementsToText [e] = renderElement e
   \<and> elementsToText (e # e' # es) = renderElement e @ [CHR 0x0A] @ elementsToText (e' # es)
   \<and> renderElement (Paragraph t h) = t
   \<and> renderElement PageBreak = ''--- Page Break ---''
   \<and> renderElement (Table rows n) = join [CHR 0x0A] (map (join [CHR 0x09]) rows)
   \<and> elementsToText [Paragraph ''a'' False, PageBreak, Paragraph ''b'' False]
       = ''a'' @ [CHR 0x0A] @ ''--- Page Break ---'' @ [CHR 0x0A] @ ''b''"
  by (simp add: elementsToText_def)

theorem elementsToText_rendering_witness:
  "elementsToText [Table [[''a'', ''b''], [''c'', ''d'']] 2, PageBreak, Paragraph ''e'' False]
   = ''a'' @ [CHR 0x09] @ ''b'' @ [CHR 0x0A] @ ''c'' @ [CHR 0x09] @ ''d'' @ [CHR 0x0A]
     @ ''--- Page Break ---'' @ [CHR 0x0A] @ ''e''"
  using elementsToText_rendering
    [of "Table [[''a'', ''b''], [''c'', ''d'']] 2" PageBreak "[Paragraph ''e'' False]"
        "''e''" False "[[''a'', ''b''], [''c'', ''d'']]" 2]
  by (simp add: elementsToText_def)

text \<open>
  C9 (origin of page breaks). For every items list and page height the core returns,
  and no element it returns is a page break; neither is any paragraph made of the OCR
  text of a scanned page. The page breaks of a document come from the page loop alone.
\<close>

theorem buildDocElements_no_PageBreak:
  "(\<exists>els. buildDocElements defaults items H = Some els \<and> PageBreak \<notin> set els)
   \<and> PageBreak \<notin> set (ocrParagraphs t)"
proof -
  obtain bs where bs:
      "buildDocElements defaults items H = Some (concat (map (blockElements defaults) bs))"
    using buildDocElements_blocks [of defaults items H] by auto
  have "PageBreak \<notin> set (concat (map (blockElements defaults) bs))"
    using blockElements_no_PageBreak by auto
  with bs ocrParagraphs_no_PageBreak show ?thesis by blast
qed

text \<open>A page with a table of two rows followed by a line of one item.\<close>

theorem buildDocElements_no_PageBreak_witness:
  "buildDocElements defaults
      [glyph ''A'' 50 80, glyph ''B'' 150 80, glyph ''C'' 50 60, glyph ''D'' 150 60,
       glyph ''total'' 50 40] 100
     = Some [Table [[''A'', ''B''], [''C'', ''D'']] 2, Paragraph ''total'' False]
   \<and> PageBreak \<notin> set [Table [[''A'', ''B''], [''C'', ''D'']] 2, Paragraph ''total'' False]
   \<and> ocrParagraphs ''--- Page Break ---'' = [Paragraph ''--- Page Break ---'' False]"
proof -
  have run: "buildDocElements defaults
      [glyph ''A'' 50 80, glyph ''B'' 150 80, glyph ''C'' 50 60, glyph ''D'' 150 60,
       glyph ''total'' 50 40] 100
     = Some [Table [[''A'', ''B''], [''C'', ''D'']] 2, Paragraph ''total'' False]"
    by (simp add: pipeline_eval glyph_def)
  have ocr: "ocrParagraphs ''--- Page Break ---'' = [Paragraph ''--- Page Break ---'' False]"
    by (simp add: ocrParagraphs_def string_eval)
  from buildDocElements_no_PageBreak
    [of "[glyph ''A'' 50 80, glyph ''B'' 150 80, glyph ''C'' 50 60, glyph ''D'' 150 60,
          glyph ''total'' 50 40]" 100 "''--- Page Break ---''"]
    run ocr
  show ?thesis by simp
qed

text \<open>
  C10 (line heights). In the output of \<^verbatim>\<open>groupIntoLines\<close> the representative
  heights of consecutive lines are strictly increasing, and each exceeds the one
  before by more than \<open>ROW_TOLERANCE = 4\<close>.
\<close>

theorem groupIntoLines_y_gaps:
  "\<forall>i. Suc i < length (groupIntoLines defaults items) \<longrightarrow>
     line_y (groupIntoLines defaults items ! i) < line_y (groupIntoLines defaults items ! Suc i) \<and>
     line_y (groupIntoLines defaults items ! i) + ROW_TOLERANCE defaults
       < line_y (groupIntoLines defaults items ! Suc i) \<and>
     ROW_TOLERANCE defaults = 4"
proof -
  have "successively (lineStep defaults) (groupIntoLines defaults items)"
    by (rule groupIntoLines_successively)
  then show ?thesis
    by (auto simp: successively_conv_nth lineStep_def)
qed

text \<open>Three runs at the heights 30, 0 and 2: the lines are at 0 and at 30.\<close>

theorem groupIntoLines_y_gaps_witness:
  "Suc 0 < length (groupIntoLines defaults
       (toPositioned [glyph ''B'' 50 60, glyph ''A'' 50 90, glyph ''C'' 150 88] 100))
   \<and> map line_y (groupIntoLines defaults
       (toPositioned [glyph ''B'' 50 60, glyph ''A'' 50 90, glyph ''C'' 150 88] 100)) = [0, 30]
   \<and> line_y (groupIntoLines defaults
       (toPositioned [glyph ''B'' 50 60, glyph ''A'' 50 90, glyph ''C'' 150 88] 100) ! 0) + 4
     < line_y (groupIntoLines defaults
       (toPositioned [glyph ''B'' 50 60, glyph ''A'' 50 90, glyph ''C'' 150 88] 100) ! Suc 0)"
proof -
  let ?ls = "groupIntoLines defaults
       (toPositioned [glyph ''B'' 50 60, glyph ''A'' 50 90, glyph ''C'' 150 88] 100)"
  have ys: "map line_y ?ls = [0, 30]"
    by (simp add: pipeline_eval glyph_def)
  then have len: "Suc 0 < length ?ls"
    by (metis length_map length_Cons list.size(3) lessI)
  from groupIntoLines_y_gaps
    [of "toPositioned [glyph ''B'' 50 60, glyph ''A'' 50 90, glyph ''C'' 150 88] 100"] len
  have "line_y (?ls ! 0) + ROW_TOLERANCE defaults < line_y (?ls ! Suc 0)" by blast
  with ys len show ?thesis by simp
qed

end
